theory Spec2Isabelle
  imports Main
begin

section \<open>Data model\<close>

text \<open>
  The development embeds \<^verbatim>\<open>static_frame/core/bus.py\<close> (class \<^verbatim>\<open>Bus\<close>) and the
  type-affinity table of \<^verbatim>\<open>static_frame/core/store_sqlite.py\<close>.

  An index label is an arbitrary hashable in Python; \<^verbatim>\<open>Bus.__init__\<close> tests
  \<^verbatim>\<open>isinstance(label, str)\<close>, so the model keeps the strings apart from the rest.
\<close>

datatype label = LStr string | LInt int

fun is_str :: "label \<Rightarrow> bool" where
  "is_str (LStr s) = True"
| "is_str (LInt i) = False"

text \<open>The NumPy dtypes, as far as the two modules tell them apart (by \<^verbatim>\<open>dtype.kind\<close>).\<close>

datatype np_dtype =
  DTYPE_BOOL | DTYPE_INT | DTYPE_UINT | DTYPE_FLOAT | DTYPE_COMPLEX
  | DTYPE_STR | DTYPE_BYTES | DTYPE_DATETIME | DTYPE_OBJECT

text \<open>
  \<^verbatim>\<open>Frame\<close> is an external collaborator: the cache only reads its name, shape, byte size
  and dtypes and calls its \<^verbatim>\<open>equals\<close>. \<open>fcontent\<close> stands for the cell data.
\<close>

record frame =
  fname :: label
  fshape :: "nat \<times> nat"
  fnbytes :: nat
  fdtypes :: "np_dtype list"
  fcontent :: "int list list"

text \<open>
  What a slot of the object array can hold: the class \<^verbatim>\<open>FrameDeferred\<close> itself (the
  token), a \<^verbatim>\<open>Frame\<close>, or any other Python object (named by its class).
\<close>

datatype pyval = FrameDeferred | Frame frame | OtherValue string

fun is_Frame :: "pyval \<Rightarrow> bool" where
  "is_Frame (Frame f) = True"
| "is_Frame v = False"

record series =
  index :: "label list"
  svalues :: "pyval list"
  sname :: "string option"
  dtype :: np_dtype

datatype init_msg =
  NotObjectDtype np_dtype
  | LabelNotString label
  | NotFrameOrDeferred pyval
  | MaxPersistTooSmall

datatype error =
  ErrorInitBus init_msg
  | ErrorInitIndex
  | RuntimeError string
  | IndexError
  | KeyError label
  | AttributeError string
  | AssertionError
  | StopIteration
  | StoreReadError label

text \<open>
  The \<^verbatim>\<open>Store\<close> contract as the Bus uses it: \<^verbatim>\<open>labels()\<close> and
  \<^verbatim>\<open>read(label, config=...)\<close>. A read that raises is \<open>None\<close>; the exception is
  carried as \<open>StoreReadError label\<close>.
\<close>

record store_config =
  index_depth :: nat
  columns_depth :: nat

record store =
  labels :: "label list"
  read :: "label \<Rightarrow> store_config \<Rightarrow> frame option"

text \<open>
  The attributes of a \<^verbatim>\<open>Bus\<close> (\<^verbatim>\<open>__slots__\<close>). \<^verbatim>\<open>_last_accessed\<close> is an
  insertion-ordered dict whose values are all \<^verbatim>\<open>None\<close>: the list of its keys, oldest
  first. The attribute only exists when \<^verbatim>\<open>max_persist\<close> is given and is never read
  otherwise; the model holds \<open>[]\<close> there.
\<close>

record bus =
  loaded :: "bool list"
  loaded_all :: bool
  series :: series
  store :: "store option"
  config :: "label \<Rightarrow> store_config"
  last_accessed :: "label list"
  max_persist :: "int option"

section \<open>Selection by position and by label\<close>

text \<open>
  NumPy and \<^verbatim>\<open>Index\<close> selection, with Python's conventions: a negative integer counts
  from the end, an integer out of range raises \<^verbatim>\<open>IndexError\<close>, a slice is clipped,
  and an \<^verbatim>\<open>Index\<close> cannot be built from repeated labels.
\<close>

datatype iloc_key = KInt int | KSlice "int option" "int option" | KList "int list"

datatype 'a selection = Single 'a | Multiple "'a list"

fun sel_list :: "'a selection \<Rightarrow> 'a list" where
  "sel_list (Single x) = [x]"
| "sel_list (Multiple xs) = xs"

fun sel_map :: "('a \<Rightarrow> 'b) \<Rightarrow> 'a selection \<Rightarrow> 'b selection" where
  "sel_map f (Single x) = Single (f x)"
| "sel_map f (Multiple xs) = Multiple (map f xs)"

definition norm_pos :: "nat \<Rightarrow> int \<Rightarrow> nat option" where
  "norm_pos n i =
     (if 0 \<le> i \<and> i < int n then Some (nat i)
      else if - int n \<le> i \<and> i < 0 then Some (nat (i + int n))
      else None)"

definition slice_bound :: "nat \<Rightarrow> int \<Rightarrow> nat" where
  "slice_bound n i = (if i < 0 then nat (max (i + int n) 0) else min (nat i) n)"

definition slice_positions :: "nat \<Rightarrow> int option \<Rightarrow> int option \<Rightarrow> nat list" where
  "slice_positions n a b =
     [(case a of None \<Rightarrow> 0 | Some i \<Rightarrow> slice_bound n i) ..<
      (case b of None \<Rightarrow> n | Some j \<Rightarrow> slice_bound n j)]"

fun key_positions :: "nat \<Rightarrow> iloc_key \<Rightarrow> error + nat selection" where
  "key_positions n (KInt i) =
     (case norm_pos n i of None \<Rightarrow> Inl IndexError | Some p \<Rightarrow> Inr (Single p))"
| "key_positions n (KSlice a b) = Inr (Multiple (slice_positions n a b))"
| "key_positions n (KList js) =
     (case those (map (norm_pos n) js) of
        None \<Rightarrow> Inl IndexError
      | Some ps \<Rightarrow> Inr (Multiple ps))"

definition NULL_SLICE :: iloc_key where
  "NULL_SLICE = KSlice None None"

text \<open>\<^verbatim>\<open>array[key]\<close> on a one-dimensional NumPy array.\<close>

definition np_getitem :: "'a list \<Rightarrow> iloc_key \<Rightarrow> error + 'a selection" where
  "np_getitem xs key =
     (case key_positions (length xs) key of
        Inl e \<Rightarrow> Inl e
      | Inr sel \<Rightarrow> Inr (sel_map (\<lambda>p. xs ! p) sel))"

text \<open>\<^verbatim>\<open>index.iloc[key]\<close>: a label, or a new \<^verbatim>\<open>Index\<close> (unique labels).\<close>

definition index_iloc :: "label list \<Rightarrow> iloc_key \<Rightarrow> error + label selection" where
  "index_iloc ix key =
     (case np_getitem ix key of
        Inl e \<Rightarrow> Inl e
      | Inr (Single l) \<Rightarrow> Inr (Single l)
      | Inr (Multiple ls) \<Rightarrow> if distinct ls then Inr (Multiple ls) else Inl ErrorInitIndex)"

text \<open>
  \<^verbatim>\<open>series.iloc[key]\<close>, presented as the items the loop of
  \<^verbatim>\<open>_update_series_cache_iloc\<close> iterates: for an element the code builds
  \<^verbatim>\<open>{index[key]: targets}\<close>.
\<close>

definition series_iloc_items :: "series \<Rightarrow> iloc_key \<Rightarrow> error + (label \<times> pyval) list" where
  "series_iloc_items s key =
     (case index_iloc (index s) key of
        Inl e \<Rightarrow> Inl e
      | Inr ls \<Rightarrow>
          (case np_getitem (svalues s) key of
             Inl e \<Rightarrow> Inl e
           | Inr vs \<Rightarrow> Inr (zip (sel_list ls) (sel_list vs))))"

text \<open>\<^verbatim>\<open>index.loc_to_iloc(label)\<close> for one label: its position.\<close>

fun label_position :: "label list \<Rightarrow> label \<Rightarrow> nat option" where
  "label_position [] l = None"
| "label_position (x # xs) l =
     (if x = l then Some 0 else map_option Suc (label_position xs l))"

fun label_positions :: "label list \<Rightarrow> label list \<Rightarrow> error + nat list" where
  "label_positions ix [] = Inr []"
| "label_positions ix (l # ls) =
     (case label_position ix l of
        None \<Rightarrow> Inl (KeyError l)
      | Some p \<Rightarrow>
          (case label_positions ix ls of Inl e \<Rightarrow> Inl e | Inr ps \<Rightarrow> Inr (p # ps)))"

datatype loc_key = LLabel label | LSlice "label option" "label option" | LList "label list"

fun loc_to_iloc :: "label list \<Rightarrow> loc_key \<Rightarrow> error + iloc_key" where
  "loc_to_iloc ix (LLabel l) =
     (case label_position ix l of None \<Rightarrow> Inl (KeyError l) | Some p \<Rightarrow> Inr (KInt (int p)))"
| "loc_to_iloc ix (LSlice a b) =
     (case a of
        None \<Rightarrow>
          (case b of
             None \<Rightarrow> Inr (KSlice None None)
           | Some lb \<Rightarrow>
               (case label_position ix lb of
                  None \<Rightarrow> Inl (KeyError lb)
                | Some q \<Rightarrow> Inr (KSlice None (Some (int q + 1)))))
      | Some la \<Rightarrow>
          (case label_position ix la of
             None \<Rightarrow> Inl (KeyError la)
           | Some p \<Rightarrow>
               (case b of
                  None \<Rightarrow> Inr (KSlice (Some (int p)) None)
                | Some lb \<Rightarrow>
                    (case label_position ix lb of
                       None \<Rightarrow> Inl (KeyError lb)
                     | Some q \<Rightarrow> Inr (KSlice (Some (int p)) (Some (int q + 1)))))))"
| "loc_to_iloc ix (LList ls) =
     (case label_positions ix ls of Inl e \<Rightarrow> Inl e | Inr ps \<Rightarrow> Inr (KList (map int ps)))"

section \<open>Construction\<close>

definition count_true :: "bool list \<Rightarrow> nat" where
  "count_true xs = length (filter (\<lambda>x. x) xs)"

text \<open>\<^verbatim>\<open>d[label] = None\<close> on an insertion-ordered dict: a new key goes last.\<close>

definition dict_set :: "label \<Rightarrow> label list \<Rightarrow> label list" where
  "dict_set l d = (if l \<in> set d then d else d @ [l])"

text \<open>
  The generator \<^verbatim>\<open>gen()\<close> of \<^verbatim>\<open>__init__\<close>, consumed by \<^verbatim>\<open>np.fromiter\<close>: one
  pass over \<^verbatim>\<open>series.items()\<close>, yielding the loaded flags and filling
  \<^verbatim>\<open>_last_accessed\<close>; the first offending item raises.
\<close>

fun gen :: "bool \<Rightarrow> (label \<times> pyval) list \<Rightarrow> label list \<Rightarrow> error + (bool list \<times> label list)" where
  "gen mpa [] la = Inr ([], la)"
| "gen mpa ((l, v) # items) la =
     (if \<not> is_str l then Inl (ErrorInitBus (LabelNotString l))
      else case v of
        Frame f \<Rightarrow>
          (case gen mpa items (if mpa then dict_set l la else la) of
             Inl e \<Rightarrow> Inl e
           | Inr (bs, la') \<Rightarrow> Inr (True # bs, la'))
      | FrameDeferred \<Rightarrow>
          (case gen mpa items la of
             Inl e \<Rightarrow> Inl e
           | Inr (bs, la') \<Rightarrow> Inr (False # bs, la'))
      | OtherValue c \<Rightarrow> Inl (ErrorInitBus (NotFrameOrDeferred v)))"

definition init :: "series \<Rightarrow> store option \<Rightarrow> (label \<Rightarrow> store_config) \<Rightarrow> int option \<Rightarrow> error + bus" where
  "init s st cfg mp =
     (if dtype s \<noteq> DTYPE_OBJECT then Inl (ErrorInitBus (NotObjectDtype (dtype s)))
      else case gen (mp \<noteq> None) (zip (index s) (svalues s)) [] of
        Inl e \<Rightarrow> Inl e
      | Inr (ld, la) \<Rightarrow>
          if (case mp of None \<Rightarrow> False | Some k \<Rightarrow> k < int (count_true ld))
          then Inl (ErrorInitBus MaxPersistTooSmall)
          else Inr \<lparr>loaded = ld, loaded_all = list_all (\<lambda>x. x) ld, series = s,
                    store = st, config = cfg, last_accessed = la, max_persist = mp\<rparr>)"

text \<open>\<^verbatim>\<open>Bus._deferred_series\<close> and \<^verbatim>\<open>Bus._from_store\<close>.\<close>

definition deferred_series :: "label list \<Rightarrow> error + series" where
  "deferred_series ls =
     (if distinct ls
      then Inr \<lparr>index = ls, svalues = map (\<lambda>l. FrameDeferred) ls, sname = None,
                dtype = DTYPE_OBJECT\<rparr>
      else Inl ErrorInitIndex)"

definition from_store :: "store \<Rightarrow> (label \<Rightarrow> store_config) \<Rightarrow> int option \<Rightarrow> error + bus" where
  "from_store st cfg mp =
     (case deferred_series (labels st) of
        Inl e \<Rightarrow> Inl e
      | Inr s \<Rightarrow> init s (Some st) cfg mp)"

section \<open>Cache management\<close>

text \<open>
  \<^verbatim>\<open>d[label] = d.pop(label, None)\<close>: the key is removed if present and inserted
  again, so it becomes the most recent one. \<^verbatim>\<open>del d[label]\<close> removes a key.
\<close>

definition dict_del :: "label \<Rightarrow> label list \<Rightarrow> label list" where
  "dict_del l d = filter (\<lambda>x. x \<noteq> l) d"

definition lru_touch :: "label \<Rightarrow> label list \<Rightarrow> label list" where
  "lru_touch l d = dict_del l d @ [l]"

text \<open>
  What the loop of \<^verbatim>\<open>_update_series_cache_iloc\<close> changes: \<^verbatim>\<open>self._loaded\<close> and
  \<^verbatim>\<open>self._last_accessed\<close> are mutated in place, \<^verbatim>\<open>array\<close> (a copy of the
  values) and \<^verbatim>\<open>loaded_count\<close> are locals.
\<close>

record loop_state =
  ls_loaded :: "bool list"
  ls_last_accessed :: "label list"
  ls_array :: "pyval list"
  ls_loaded_count :: int

text \<open>
  One iteration of \<^verbatim>\<open>for label, frame in targets.items()\<close>. An exception leaves the
  loop with the state reached so far.
\<close>

definition cache_step :: "bus \<Rightarrow> store \<Rightarrow> label \<times> pyval \<Rightarrow> loop_state \<Rightarrow> error option \<times> loop_state" where
  "cache_step b st t s =
     (case t of (label, frame) \<Rightarrow>
      (case label_position (index (series b)) label of
         None \<Rightarrow> (Some (KeyError label), s)
       | Some idx \<Rightarrow>
           let max_persist_active = (max_persist b \<noteq> None);
               s1 = (if max_persist_active
                     then s\<lparr>ls_last_accessed := lru_touch label (ls_last_accessed s)\<rparr>
                     else s)
           in
           (case (case frame of
                    FrameDeferred \<Rightarrow>
                      (case read st label (config b label) of
                         None \<Rightarrow> Inl (StoreReadError label)
                       | Some f \<Rightarrow> Inr (Frame f))
                  | _ \<Rightarrow> Inr frame) of
              Inl e \<Rightarrow> (Some e, s1)
            | Inr frame' \<Rightarrow>
                let s2 = (if \<not> ls_loaded s1 ! idx
                          then s1\<lparr>ls_array := (ls_array s1)[idx := frame'],
                                  ls_loaded := (ls_loaded s1)[idx := True],
                                  ls_loaded_count :=
                                    (if max_persist_active then ls_loaded_count s1 + 1
                                     else ls_loaded_count s1)\<rparr>
                          else s1)
                in
                (case max_persist b of
                   None \<Rightarrow> (None, s2)
                 | Some mp \<Rightarrow>
                     if ls_loaded_count s2 > mp then
                       if ls_loaded_count s2 \<noteq> mp + 1 then (Some AssertionError, s2)
                       else
                         (case ls_last_accessed s2 of
                            [] \<Rightarrow> (Some StopIteration, s2)
                          | label_remove # rest \<Rightarrow>
                              let s3 = s2\<lparr>ls_last_accessed :=
                                             dict_del label_remove (ls_last_accessed s2)\<rparr>
                              in
                              (case label_position (index (series b)) label_remove of
                                 None \<Rightarrow> (Some (KeyError label_remove), s3)
                               | Some idx_remove \<Rightarrow>
                                   let s4 = s3\<lparr>ls_loaded := (ls_loaded s3)[idx_remove := False],
                                                ls_array := (ls_array s3)[idx_remove := FrameDeferred],
                                                ls_loaded_count := ls_loaded_count s3 - 1\<rparr>
                                   in if ls_loaded_count s4 < 0 then (Some AssertionError, s4)
                                      else (None, s4)))
                     else (None, s2)))))"

fun cache_loop :: "bus \<Rightarrow> store \<Rightarrow> (label \<times> pyval) list \<Rightarrow> loop_state \<Rightarrow> error option \<times> loop_state" where
  "cache_loop b st [] s = (None, s)"
| "cache_loop b st (t # ts) s =
     (case cache_step b st t s of
        (Some e, s') \<Rightarrow> (Some e, s')
      | (None, s') \<Rightarrow> cache_loop b st ts s')"

fun sel_all :: "bool selection \<Rightarrow> bool" where
  "sel_all (Single x) = x"
| "sel_all (Multiple xs) = list_all (\<lambda>x. x) xs"

text \<open>
  \<^verbatim>\<open>Bus._update_series_cache_iloc\<close>. The result is the exception raised, if any, and
  the Bus as the call leaves it: the new \<^verbatim>\<open>Series\<close> and \<^verbatim>\<open>_loaded_all\<close> are
  only assigned after the loop, the in-place changes of the loop stay.
\<close>

definition update_series_cache_iloc :: "iloc_key \<Rightarrow> bus \<Rightarrow> error option \<times> bus" where
  "update_series_cache_iloc key b =
     (let max_persist_active = (max_persist b \<noteq> None) in
      case (if loaded_all b then Inr False
            else case np_getitem (loaded b) key of
                   Inl e \<Rightarrow> Inl e
                 | Inr sel \<Rightarrow> Inr (\<not> sel_all sel)) of
        Inl e \<Rightarrow> (Some e, b)
      | Inr load \<Rightarrow>
          if \<not> load \<and> \<not> max_persist_active then (None, b)
          else if \<not> load \<and> max_persist_active then
            (case index_iloc (index (series b)) key of
               Inl e \<Rightarrow> (Some e, b)
             | Inr ls \<Rightarrow>
                 (None, b\<lparr>last_accessed := fold lru_touch (sel_list ls) (last_accessed b)\<rparr>))
          else
            (case store b of
               None \<Rightarrow> (Some (RuntimeError ''no store defined''), b)
             | Some st \<Rightarrow>
                 (case series_iloc_items (series b) key of
                    Inl e \<Rightarrow> (Some e, b)
                  | Inr targets \<Rightarrow>
                      (case cache_loop b st targets
                              \<lparr>ls_loaded = loaded b,
                               ls_last_accessed = last_accessed b,
                               ls_array = svalues (series b),
                               ls_loaded_count = int (count_true (loaded b))\<rparr> of
                         (Some e, s) \<Rightarrow>
                           (Some e, b\<lparr>loaded := ls_loaded s,
                                      last_accessed := ls_last_accessed s\<rparr>)
                       | (None, s) \<Rightarrow>
                           (None, b\<lparr>loaded := ls_loaded s,
                                    last_accessed := ls_last_accessed s,
                                    series := \<lparr>index = index (series b),
                                                svalues = ls_array s,
                                                sname = None,
                                                dtype = DTYPE_OBJECT\<rparr>,
                                    loaded_all := list_all (\<lambda>x. x) (ls_loaded s)\<rparr>)))))"

definition update_series_cache_all :: "bus \<Rightarrow> error option \<times> bus" where
  "update_series_cache_all b =
     (if \<not> loaded_all b then update_series_cache_iloc NULL_SLICE b else (None, b))"

section \<open>Extraction\<close>

datatype extract_result = Element pyval | SubBus bus

text \<open>
  \<^verbatim>\<open>Bus._extract_iloc\<close> and \<^verbatim>\<open>Bus._extract_loc\<close>: the value returned (or the
  exception) and the receiver afterwards. A selection of several positions builds a new
  \<^verbatim>\<open>Bus\<close> through \<^verbatim>\<open>__init__\<close>.
\<close>

definition extract_iloc :: "iloc_key \<Rightarrow> bus \<Rightarrow> (error + extract_result) \<times> bus" where
  "extract_iloc key b =
     (case update_series_cache_iloc key b of
        (Some e, b') \<Rightarrow> (Inl e, b')
      | (None, b') \<Rightarrow>
          (case np_getitem (svalues (series b')) key of
             Inl e \<Rightarrow> (Inl e, b')
           | Inr (Single v) \<Rightarrow> (Inr (Element v), b')
           | Inr (Multiple vs) \<Rightarrow>
               (case index_iloc (index (series b')) key of
                  Inl e \<Rightarrow> (Inl e, b')
                | Inr ls \<Rightarrow>
                    (case init \<lparr>index = sel_list ls, svalues = vs,
                                sname = sname (series b'), dtype = DTYPE_OBJECT\<rparr>
                               (store b') (config b') (max_persist b') of
                       Inl e \<Rightarrow> (Inl e, b')
                     | Inr child \<Rightarrow> (Inr (SubBus child), b')))))"

definition extract_loc :: "loc_key \<Rightarrow> bus \<Rightarrow> (error + extract_result) \<times> bus" where
  "extract_loc key b =
     (case loc_to_iloc (index (series b)) key of
        Inl e \<Rightarrow> (Inl e, b)
      | Inr iloc_key \<Rightarrow> extract_iloc iloc_key b)"

section \<open>Dictionary-like interface and descriptors\<close>

text \<open>\<^verbatim>\<open>Bus.items\<close> and the property \<^verbatim>\<open>Bus.values\<close>: both load everything first.\<close>

definition items :: "bus \<Rightarrow> (error + (label \<times> pyval) list) \<times> bus" where
  "items b =
     (case update_series_cache_all b of
        (Some e, b') \<Rightarrow> (Inl e, b')
      | (None, b') \<Rightarrow> (Inr (zip (index (series b')) (svalues (series b'))), b'))"

definition values_all :: "bus \<Rightarrow> (error + pyval list) \<times> bus" where
  "values_all b =
     (case update_series_cache_all b of
        (Some e, b') \<Rightarrow> (Inl e, b')
      | (None, b') \<Rightarrow> (Inr (svalues (series b')), b'))"

text \<open>
  The properties \<^verbatim>\<open>nbytes\<close>, \<^verbatim>\<open>shapes\<close> and \<^verbatim>\<open>dtypes\<close> read
  \<^verbatim>\<open>self._series.values\<close> as it is; they assign nothing, so they are functions of the
  Bus alone. An object that is neither token nor \<^verbatim>\<open>Frame\<close> has no such attribute.
\<close>

fun nbytes_sum :: "pyval list \<Rightarrow> error + nat" where
  "nbytes_sum [] = Inr 0"
| "nbytes_sum (v # vs) =
     (case v of
        FrameDeferred \<Rightarrow> (case nbytes_sum vs of Inl e \<Rightarrow> Inl e | Inr n \<Rightarrow> Inr (0 + n))
      | Frame f \<Rightarrow> (case nbytes_sum vs of Inl e \<Rightarrow> Inl e | Inr n \<Rightarrow> Inr (fnbytes f + n))
      | OtherValue c \<Rightarrow> Inl (AttributeError ''nbytes''))"

definition nbytes :: "bus \<Rightarrow> error + nat" where
  "nbytes b = nbytes_sum (svalues (series b))"

fun shape_values :: "pyval list \<Rightarrow> error + (nat \<times> nat) option list" where
  "shape_values [] = Inr []"
| "shape_values (v # vs) =
     (case v of
        FrameDeferred \<Rightarrow> (case shape_values vs of Inl e \<Rightarrow> Inl e | Inr r \<Rightarrow> Inr (None # r))
      | Frame f \<Rightarrow> (case shape_values vs of Inl e \<Rightarrow> Inl e | Inr r \<Rightarrow> Inr (Some (fshape f) # r))
      | OtherValue c \<Rightarrow> Inl (AttributeError ''shape''))"

text \<open>The \<^verbatim>\<open>Series\<close> named \<^verbatim>\<open>shape\<close>: one entry per label, \<open>None\<close> for Python's \<^verbatim>\<open>None\<close>.\<close>

definition shapes :: "bus \<Rightarrow> error + (label \<times> (nat \<times> nat) option) list" where
  "shapes b =
     (case shape_values (svalues (series b)) of
        Inl e \<Rightarrow> Inl e
      | Inr r \<Rightarrow> Inr (zip (index (series b)) r))"

text \<open>
  \<^verbatim>\<open>dtypes\<close>: with nothing loaded, a \<^verbatim>\<open>Frame\<close> that has the index and no column;
  otherwise \<^verbatim>\<open>Frame.from_concat\<close> of the \<^verbatim>\<open>dtypes\<close> of the frames that are not
  the token, reindexed by the labels. The result is kept as the arguments of these
  calls.
\<close>

datatype dtypes_result =
  FrameIndexOnly "label list"
  | FromConcatReindex "(label \<times> np_dtype list) list" "label list"

fun frame_dtypes :: "pyval list \<Rightarrow> error + (label \<times> np_dtype list) list" where
  "frame_dtypes [] = Inr []"
| "frame_dtypes (v # vs) =
     (case v of
        FrameDeferred \<Rightarrow> frame_dtypes vs
      | Frame f \<Rightarrow>
          (case frame_dtypes vs of Inl e \<Rightarrow> Inl e | Inr r \<Rightarrow> Inr ((fname f, fdtypes f) # r))
      | OtherValue c \<Rightarrow> Inl (AttributeError ''dtypes''))"

definition dtypes :: "bus \<Rightarrow> error + dtypes_result" where
  "dtypes b =
     (if \<not> list_ex (\<lambda>x. x) (loaded b) then Inr (FrameIndexOnly (index (series b)))
      else case frame_dtypes (svalues (series b)) of
        Inl e \<Rightarrow> Inl e
      | Inr r \<Rightarrow> Inr (FromConcatReindex r (index (series b))))"

section \<open>Equality\<close>

record equals_flags =
  compare_name :: bool
  compare_dtype :: bool
  compare_class :: bool
  skipna :: bool

text \<open>
  Modelled from the spec: \<^verbatim>\<open>Frame.equals\<close> is not part of the two modules. The
  spec gives a dataset structural equality and makes the token "never equal to any
  Dataset instance regardless of content"; anything that is not a \<^verbatim>\<open>Frame\<close> is
  unequal.
\<close>

definition frame_equals :: "equals_flags \<Rightarrow> frame \<Rightarrow> pyval \<Rightarrow> bool" where
  "frame_equals fl f v =
     (case v of
        Frame g \<Rightarrow>
          (if compare_name fl then fname f = fname g else True)
          \<and> (if compare_dtype fl then fdtypes f = fdtypes g else True)
          \<and> fshape f = fshape g \<and> fcontent f = fcontent g
      | _ \<Rightarrow> False)"

text \<open>
  The loop over \<^verbatim>\<open>zip(self._series.values, other._series.values)\<close>. The receiver's
  slot is the object whose \<^verbatim>\<open>equals\<close> is called: the class \<^verbatim>\<open>FrameDeferred\<close>
  defines none.
\<close>

fun equals_loop :: "equals_flags \<Rightarrow> (pyval \<times> pyval) list \<Rightarrow> error + bool" where
  "equals_loop fl [] = Inr True"
| "equals_loop fl ((frame_self, frame_other) # rest) =
     (case frame_self of
        Frame f \<Rightarrow> if \<not> frame_equals fl f frame_other then Inr False else equals_loop fl rest
      | _ \<Rightarrow> Inl (AttributeError ''equals''))"

text \<open>
  The argument of \<^verbatim>\<open>Bus.equals\<close>: the receiver itself
  (\<^verbatim>\<open>id(other) == id(self)\<close>), another \<^verbatim>\<open>Bus\<close>, or an object of another class.
\<close>

datatype other_arg = OSelf | OBus bus | ONotBus string

definition equals :: "other_arg \<Rightarrow> equals_flags \<Rightarrow> bus \<Rightarrow> (error + bool) \<times> bus" where
  "equals other fl b =
     (case other of
        OSelf \<Rightarrow> (Inr True, b)
      | ONotBus c \<Rightarrow> (Inr False, b)
      | OBus ob \<Rightarrow>
          (case update_series_cache_all b of
             (Some e, b') \<Rightarrow> (Inl e, b')
           | (None, b') \<Rightarrow>
               if length (svalues (series b')) \<noteq> length (svalues (series ob))
               then (Inr False, b')
               else if compare_name fl \<and> sname (series b') \<noteq> sname (series ob)
               then (Inr False, b')
               else if index (series b') \<noteq> index (series ob) then (Inr False, b')
               else (equals_loop fl (zip (svalues (series b')) (svalues (series ob))), b')))"

section \<open>Sequences of accesses\<close>

datatype access =
  GetItem loc_key
  | ILoc iloc_key
  | Items
  | Values
  | Equals other_arg equals_flags

datatype returned =
  RExtract extract_result
  | RItems "(label \<times> pyval) list"
  | RValues "pyval list"
  | RBool bool

fun lift_result :: "('a \<Rightarrow> returned) \<Rightarrow> (error + 'a) \<times> bus \<Rightarrow> (error + returned) \<times> bus" where
  "lift_result f (Inl e, b) = (Inl e, b)"
| "lift_result f (Inr x, b) = (Inr (f x), b)"

fun apply_access :: "access \<Rightarrow> bus \<Rightarrow> (error + returned) \<times> bus" where
  "apply_access (GetItem key) b = lift_result RExtract (extract_loc key b)"
| "apply_access (ILoc key) b = lift_result RExtract (extract_iloc key b)"
| "apply_access Items b = lift_result RItems (items b)"
| "apply_access Values b = lift_result RValues (values_all b)"
| "apply_access (Equals other fl) b = lift_result RBool (equals other fl b)"

text \<open>A sequence of accesses on one Bus stops at the first exception.\<close>

fun run :: "access list \<Rightarrow> bus \<Rightarrow> error option \<times> bus" where
  "run [] b = (None, b)"
| "run (a # as) b =
     (case apply_access a b of
        (Inl e, b') \<Rightarrow> (Some e, b')
      | (Inr r, b') \<Rightarrow> run as b')"

text \<open>The labels that are resident: those whose flag in \<^verbatim>\<open>_loaded\<close> is set.\<close>

definition resident_of :: "label list \<Rightarrow> bool list \<Rightarrow> label list" where
  "resident_of ix ld = map fst (filter snd (zip ix ld))"

definition resident :: "bus \<Rightarrow> label list" where
  "resident b = resident_of (index (series b)) (loaded b)"

section \<open>Invariants\<close>

fun slot_ok :: "pyval \<Rightarrow> bool" where
  "slot_ok (OtherValue c) = False"
| "slot_ok v = True"

text \<open>
  Under a ceiling, the keys of \<^verbatim>\<open>_last_accessed\<close> are the resident labels and their
  number is within the ceiling.
\<close>

definition lru_inv :: "int option \<Rightarrow> label list \<Rightarrow> bool list \<Rightarrow> label list \<Rightarrow> bool" where
  "lru_inv mp ix ld la =
     (case mp of
        None \<Rightarrow> True
      | Some k \<Rightarrow>
          distinct la \<and> set la = set (resident_of ix ld) \<and> int (count_true ld) \<le> k)"

definition loop_inv :: "bus \<Rightarrow> loop_state \<Rightarrow> bool" where
  "loop_inv b s =
     (ls_loaded s = map is_Frame (ls_array s)
      \<and> length (ls_array s) = length (index (series b))
      \<and> list_all slot_ok (ls_array s)
      \<and> lru_inv (max_persist b) (index (series b)) (ls_loaded s) (ls_last_accessed s)
      \<and> (case max_persist b of
            None \<Rightarrow> True
          | Some k \<Rightarrow> ls_loaded_count s = int (count_true (ls_loaded s))))"

text \<open>
  What \<^verbatim>\<open>__init__\<close> establishes and every access that returns normally keeps: unique
  string labels, a flag for each slot that tells whether it holds a \<^verbatim>\<open>Frame\<close>, and
  the bookkeeping of the ceiling.
\<close>

definition bus_inv :: "bus \<Rightarrow> bool" where
  "bus_inv b =
     (distinct (index (series b))
      \<and> list_all is_str (index (series b))
      \<and> length (svalues (series b)) = length (index (series b))
      \<and> loaded b = map is_Frame (svalues (series b))
      \<and> list_all slot_ok (svalues (series b))
      \<and> loaded_all b = list_all (\<lambda>x. x) (loaded b)
      \<and> lru_inv (max_persist b) (index (series b)) (loaded b) (last_accessed b))"

section \<open>A concrete backend\<close>

text \<open>
  A store that enumerates the labels \<^verbatim>\<open>a\<close>, \<^verbatim>\<open>b\<close>, \<^verbatim>\<open>c\<close> and reads a small
  integer frame for each; reading any other label raises.
\<close>

definition frame_of :: "string \<Rightarrow> frame" where
  "frame_of s = \<lparr>fname = LStr s, fshape = (2, 2), fnbytes = 32,
                 fdtypes = [DTYPE_INT, DTYPE_INT], fcontent = [[1, 2], [3, 4]]\<rparr>"

definition default_config :: "label \<Rightarrow> store_config" where
  "default_config l = \<lparr>index_depth = 1, columns_depth = 1\<rparr>"

definition abc_store :: store where
  "abc_store =
     \<lparr>labels = [LStr ''a'', LStr ''b'', LStr ''c''],
      read = (\<lambda>l c. case l of
                       LStr s \<Rightarrow> if s = ''a'' \<or> s = ''b'' \<or> s = ''c'' then Some (frame_of s) else None
                     | LInt i \<Rightarrow> None)\<rparr>"

definition element_of :: "error + extract_result \<Rightarrow> pyval option" where
  "element_of r = (case r of Inr (Element v) \<Rightarrow> Some v | _ \<Rightarrow> None)"

section \<open>The parts of the cache update\<close>

text \<open>
  Names for the parts of \<^verbatim>\<open>_update_series_cache_iloc\<close>, used to state the lemmas
  about it: reading one target from the backend (\<open>fetch\<close>), writing it into the local
  copy of the array (\<open>fill\<close>), dropping the least recently used label (\<open>evict\<close>),
  recording a use (\<open>touched\<close>), the state in which the loop starts, the attributes
  after a loop that ran to its end (\<open>publish\<close>) and after one that raised
  (\<open>interrupted\<close>), and the test that guards the loop (\<open>load_needed\<close>).
  Each is shown equal to the corresponding part of the code below.
\<close>

definition fill :: "bool \<Rightarrow> nat \<Rightarrow> pyval \<Rightarrow> loop_state \<Rightarrow> loop_state" where
  "fill mpa idx fr s1 =
     (if \<not> ls_loaded s1 ! idx
      then s1\<lparr>ls_array := (ls_array s1)[idx := fr],
              ls_loaded := (ls_loaded s1)[idx := True],
              ls_loaded_count := (if mpa then ls_loaded_count s1 + 1 else ls_loaded_count s1)\<rparr>
      else s1)"

definition fetch :: "bus \<Rightarrow> store \<Rightarrow> label \<Rightarrow> pyval \<Rightarrow> error + pyval" where
  "fetch b st l v =
     (case v of
        FrameDeferred \<Rightarrow>
          (case read st l (config b l) of
             None \<Rightarrow> Inl (StoreReadError l)
           | Some f \<Rightarrow> Inr (Frame f))
      | _ \<Rightarrow> Inr v)"

definition evict :: "label \<Rightarrow> nat \<Rightarrow> loop_state \<Rightarrow> loop_state" where
  "evict lr ir s2 =
     s2\<lparr>ls_last_accessed := dict_del lr (ls_last_accessed s2),
        ls_loaded := (ls_loaded s2)[ir := False],
        ls_array := (ls_array s2)[ir := FrameDeferred],
        ls_loaded_count := ls_loaded_count s2 - 1\<rparr>"

definition touched :: "label \<Rightarrow> loop_state \<Rightarrow> loop_state" where
  "touched l s = s\<lparr>ls_last_accessed := lru_touch l (ls_last_accessed s)\<rparr>"

definition loop_start :: "bus \<Rightarrow> loop_state" where
  "loop_start b = \<lparr>ls_loaded = loaded b, ls_last_accessed = last_accessed b,
                   ls_array = svalues (series b),
                   ls_loaded_count = int (count_true (loaded b))\<rparr>"

definition publish :: "bus \<Rightarrow> loop_state \<Rightarrow> bus" where
  "publish b s =
     b\<lparr>loaded := ls_loaded s, last_accessed := ls_last_accessed s,
       series := \<lparr>index = index (series b), svalues = ls_array s, sname = None,
                  dtype = DTYPE_OBJECT\<rparr>,
       loaded_all := list_all (\<lambda>x. x) (ls_loaded s)\<rparr>"

definition interrupted :: "bus \<Rightarrow> loop_state \<Rightarrow> bus" where
  "interrupted b s = b\<lparr>loaded := ls_loaded s, last_accessed := ls_last_accessed s\<rparr>"

definition load_needed :: "iloc_key \<Rightarrow> bus \<Rightarrow> error + bool" where
  "load_needed key b =
     (if loaded_all b then Inr False
      else case np_getitem (loaded b) key of
             Inl e \<Rightarrow> Inl e
           | Inr sel \<Rightarrow> Inr (\<not> sel_all sel))"

text \<open>Two states of a Bus with the same backend, configuration, ceiling and labels.\<close>

definition same_setup :: "bus \<Rightarrow> bus \<Rightarrow> bool" where
  "same_setup b b' =
     (max_persist b' = max_persist b \<and> store b' = store b \<and> config b' = config b
      \<and> index (series b') = index (series b))"

section \<open>The key an access updates the cache with\<close>


text \<open>
  A series of two tokens whose second label names no table of the backend above: the
  public constructor takes any such series together with a store.
\<close>

definition a_zz_series :: series where
  "a_zz_series = \<lparr>index = [LStr ''a'', LStr ''zz''], svalues = [FrameDeferred, FrameDeferred],
                   sname = None, dtype = DTYPE_OBJECT\<rparr>"



section \<open>Lists, positions and the use order\<close>

lemma label_position_Some:
  "label_position ix l = Some i \<Longrightarrow> i < length ix \<and> ix ! i = l"
  by (induction ix arbitrary: i) (auto split: if_splits)

lemma label_position_None: "label_position ix l = None \<longleftrightarrow> l \<notin> set ix"
  by (induction ix) auto


lemma set_resident_of:
  "length ix = length ld \<Longrightarrow> set (resident_of ix ld) = {ix ! i | i. i < length ld \<and> ld ! i}"
  unfolding resident_of_def
  by (force simp: set_zip image_iff)

lemma count_true_set_True:
  "i < length ld \<Longrightarrow> \<not> ld ! i \<Longrightarrow> count_true (ld[i := True]) = Suc (count_true ld)"
  unfolding count_true_def
proof (induction ld arbitrary: i)
  case Nil
  then show ?case by simp
next
  case (Cons x xs)
  then show ?case by (cases i) auto
qed

lemma count_true_set_False:
  "i < length ld \<Longrightarrow> ld ! i \<Longrightarrow> Suc (count_true (ld[i := False])) = count_true ld"
  unfolding count_true_def
proof (induction ld arbitrary: i)
  case Nil
  then show ?case by simp
next
  case (Cons x xs)
  then show ?case by (cases i) auto
qed

lemma set_dict_del: "set (dict_del l d) = set d - {l}"
  by (auto simp: dict_del_def)

lemma distinct_dict_del: "distinct d \<Longrightarrow> distinct (dict_del l d)"
  by (simp add: dict_del_def)

lemma set_lru_touch: "set (lru_touch l d) = insert l (set d)"
  by (auto simp: lru_touch_def dict_del_def)

lemma distinct_lru_touch: "distinct d \<Longrightarrow> distinct (lru_touch l d)"
  by (auto simp: lru_touch_def dict_del_def)

lemma lru_touch_nonempty: "lru_touch l d \<noteq> []"
  by (simp add: lru_touch_def)

lemma resident_of_set_True:
  "length ix = length ld \<Longrightarrow> i < length ld \<Longrightarrow>
   set (resident_of ix (ld[i := True])) = insert (ix ! i) (set (resident_of ix ld))"
  by (auto simp: set_resident_of nth_list_update)

lemma resident_of_set_False:
  "length ix = length ld \<Longrightarrow> distinct ix \<Longrightarrow> i < length ld \<Longrightarrow>
   set (resident_of ix (ld[i := False])) = set (resident_of ix ld) - {ix ! i}"
  by (auto simp: set_resident_of nth_list_update nth_eq_iff_index_eq)

lemma resident_of_nth:
  "length ix = length ld \<Longrightarrow> distinct ix \<Longrightarrow> i < length ld \<Longrightarrow>
   (ix ! i \<in> set (resident_of ix ld)) = ld ! i"
  by (auto simp: set_resident_of nth_eq_iff_index_eq)

lemma resident_of_subset: "set (resident_of ix ld) \<subseteq> set ix"
  unfolding resident_of_def by (auto dest: set_zip_leftD)

lemma loop_invD:
  assumes "loop_inv b s"
  shows "ls_loaded s = map is_Frame (ls_array s)"
    and "length (ls_array s) = length (index (series b))"
    and "length (ls_loaded s) = length (index (series b))"
    and "list_all slot_ok (ls_array s)"
    and "lru_inv (max_persist b) (index (series b)) (ls_loaded s) (ls_last_accessed s)"
  using assms unfolding loop_inv_def by auto

lemma fetch_is_Frame: "slot_ok v \<Longrightarrow> fetch b st l v = Inr fr \<Longrightarrow> is_Frame fr"
  by (cases v) (auto simp: fetch_def split: option.splits)

lemma list_update_True_id: "xs ! i \<Longrightarrow> xs[i := True] = xs"
  by (metis list_update_id)

lemma fill_shape:
  assumes "ls_loaded s = map is_Frame (ls_array s)" "is_Frame fr" "i < length (ls_array s)"
  shows "ls_loaded (fill m i fr s) = map is_Frame (ls_array (fill m i fr s))"
    and "length (ls_array (fill m i fr s)) = length (ls_array s)"
    and "ls_loaded (fill m i fr s) = (ls_loaded s)[i := True]"
    and "ls_last_accessed (fill m i fr s) = ls_last_accessed s"
    and "ls_loaded (fill m i fr s) ! i"
  using assms by (auto simp: fill_def map_update list_update_True_id)

lemma fill_slots:
  "list_all slot_ok (ls_array s) \<Longrightarrow> is_Frame fr \<Longrightarrow> list_all slot_ok (ls_array (fill m i fr s))"
  using set_update_subset_insert[of "ls_array s" i fr]
  by (cases fr) (auto simp: fill_def list_all_iff)

lemma fill_count:
  assumes "ls_loaded_count s = int (count_true (ls_loaded s))" "i < length (ls_loaded s)"
  shows "ls_loaded_count (fill True i fr s) = int (count_true (ls_loaded (fill True i fr s)))"
    and "ls_loaded_count (fill True i fr s) \<le> ls_loaded_count s + 1"
  using assms by (auto simp: fill_def count_true_set_True)

lemma cache_step_None:
  assumes mp: "max_persist b = None"
    and pos: "label_position (index (series b)) l = Some i"
    and inv: "loop_inv b s"
    and ok: "slot_ok v"
    and rd: "fetch b st l v = Inr fr"
  shows "cache_step b st (l, v) s = (None, fill False i fr s) \<and> loop_inv b (fill False i fr s)"
proof -
  have i: "i < length (ls_array s)"
    using label_position_Some[OF pos] loop_invD[OF inv] by simp
  have fr: "is_Frame fr" using fetch_is_Frame[OF ok rd] .
  have "cache_step b st (l, v) s = (None, fill False i fr s)"
    using mp pos rd by (simp add: cache_step_def fill_def fetch_def Let_def)
  moreover have "loop_inv b (fill False i fr s)"
    using fill_shape[OF loop_invD(1)[OF inv] fr i] fill_slots[OF loop_invD(4)[OF inv] fr]
      loop_invD(2)[OF inv] mp
    unfolding loop_inv_def lru_inv_def by auto
  ultimately show ?thesis by simp
qed

lemma cache_step_Some_unfold:
  assumes "label_position (index (series b)) l = Some i" "fetch b st l v = Inr fr"
    "max_persist b = Some k"
  shows "cache_step b st (l, v) s =
     (let s2 = fill True i fr (touched l s) in
      if ls_loaded_count s2 > k then
        if ls_loaded_count s2 \<noteq> k + 1 then (Some AssertionError, s2)
        else
          (case ls_last_accessed s2 of
             [] \<Rightarrow> (Some StopIteration, s2)
           | lr # rest \<Rightarrow>
               (case label_position (index (series b)) lr of
                  None \<Rightarrow> (Some (KeyError lr), s2\<lparr>ls_last_accessed := dict_del lr (ls_last_accessed s2)\<rparr>)
                | Some ir \<Rightarrow>
                    if ls_loaded_count s2 - 1 < 0 then (Some AssertionError, evict lr ir s2)
                    else (None, evict lr ir s2)))
      else (None, s2))"
  using assms
  by (simp add: cache_step_def fetch_def fill_def evict_def touched_def Let_def
      split: list.splits option.splits)

lemma cache_step_Some:
  assumes mp: "max_persist b = Some k"
    and dist: "distinct (index (series b))"
    and pos: "label_position (index (series b)) l = Some i"
    and inv: "loop_inv b s"
    and ok: "slot_ok v"
    and rd: "fetch b st l v = Inr fr"
  shows "\<exists>s'. cache_step b st (l, v) s = (None, s') \<and> loop_inv b s'"
proof -
  let ?ix = "index (series b)"
  let ?s1 = "touched l s"
  let ?s2 = "fill True i fr ?s1"
  have fr: "is_Frame fr" using fetch_is_Frame[OF ok rd] .
  have len: "length (ls_array s) = length ?ix" "length (ls_loaded s) = length ?ix"
    using loop_invD[OF inv] by simp_all
  have i: "i < length ?ix" and ixi: "?ix ! i = l"
    using label_position_Some[OF pos] by simp_all
  have lru: "distinct (ls_last_accessed s)"
    "set (ls_last_accessed s) = set (resident_of ?ix (ls_loaded s))"
    "int (count_true (ls_loaded s)) \<le> k"
    "ls_loaded_count s = int (count_true (ls_loaded s))"
    using inv mp unfolding loop_inv_def lru_inv_def by auto
  have s1: "ls_loaded ?s1 = map is_Frame (ls_array ?s1)" "i < length (ls_array ?s1)"
    "list_all slot_ok (ls_array ?s1)" "ls_loaded ?s1 = ls_loaded s"
    "ls_loaded_count ?s1 = int (count_true (ls_loaded ?s1))" "i < length (ls_loaded ?s1)"
    using loop_invD[OF inv] i len lru by (simp_all add: touched_def)
  have shape2: "ls_loaded ?s2 = map is_Frame (ls_array ?s2)"
    "length (ls_array ?s2) = length ?ix"
    "ls_loaded ?s2 = (ls_loaded s)[i := True]"
    "ls_last_accessed ?s2 = lru_touch l (ls_last_accessed s)"
    using fill_shape[OF s1(1) fr s1(2), of True] len s1(4) by (simp_all add: touched_def)
  have slots2: "list_all slot_ok (ls_array ?s2)" using fill_slots[OF s1(3) fr] .
  have cnt2: "ls_loaded_count ?s2 = int (count_true (ls_loaded ?s2))"
    "ls_loaded_count ?s2 \<le> k + 1"
    using fill_count[OF s1(5) s1(6), of fr] lru s1(4) by (simp_all add: touched_def)
  have d2: "distinct (ls_last_accessed ?s2)"
    using lru(1) by (simp add: shape2(4) distinct_lru_touch)
  have set2: "set (ls_last_accessed ?s2) = set (resident_of ?ix (ls_loaded ?s2))"
    using resident_of_set_True[of ?ix "ls_loaded s" i] len i lru(2) ixi
    by (simp add: shape2(3,4) set_lru_touch)
  show ?thesis
  proof (cases "ls_loaded_count ?s2 > k")
    case False
    then have "cache_step b st (l, v) s = (None, ?s2)"
      using cache_step_Some_unfold[OF pos rd mp, of s] by (simp add: Let_def)
    moreover have "loop_inv b ?s2"
      using shape2(1,2) slots2 d2 set2 cnt2 False mp unfolding loop_inv_def lru_inv_def by auto
    ultimately show ?thesis by blast
  next
    case True
    then have eq: "ls_loaded_count ?s2 = k + 1" using cnt2(2) by simp
    obtain lr rest where la2: "ls_last_accessed ?s2 = lr # rest"
      using lru_touch_nonempty[of l "ls_last_accessed s"] shape2(4)
      by (metis list.exhaust)
    have "lr \<in> set (resident_of ?ix (ls_loaded ?s2))" using set2 la2 by auto
    then have lrix: "lr \<in> set ?ix" using resident_of_subset by blast
    then obtain ir where ir: "label_position ?ix lr = Some ir"
      using label_position_None[of ?ix lr] by (cases "label_position ?ix lr") auto
    have irl: "ir < length ?ix" "?ix ! ir = lr" using label_position_Some[OF ir] by simp_all
    have len2: "length ?ix = length (ls_loaded ?s2)" using shape2(3) len by simp
    have ldir: "ls_loaded ?s2 ! ir"
      using resident_of_nth[OF len2 dist, of ir] irl \<open>lr \<in> set (resident_of ?ix (ls_loaded ?s2))\<close>
        len2 by simp
    have pos1: "Suc (count_true ((ls_loaded ?s2)[ir := False])) = count_true (ls_loaded ?s2)"
      using count_true_set_False[of ir "ls_loaded ?s2"] ldir irl len2 by simp
    have k0: "0 \<le> k" using eq cnt2(1) pos1 by linarith
    let ?s4 = "evict lr ir ?s2"
    have step: "cache_step b st (l, v) s = (None, ?s4)"
      using cache_step_Some_unfold[OF pos rd mp, of s] True eq la2 ir k0
      by (simp add: Let_def)
    have a4: "ls_loaded ?s4 = map is_Frame (ls_array ?s4)"
      using shape2(1) by (simp add: evict_def map_update)
    have l4: "length (ls_array ?s4) = length ?ix" using shape2(2) by (simp add: evict_def)
    have sl4: "list_all slot_ok (ls_array ?s4)"
      using slots2 set_update_subset_insert[of "ls_array ?s2" ir FrameDeferred]
      by (auto simp: evict_def list_all_iff)
    have d4: "distinct (ls_last_accessed ?s4)"
      using d2 by (simp add: evict_def distinct_dict_del)
    have set4: "set (ls_last_accessed ?s4) = set (resident_of ?ix (ls_loaded ?s4))"
      using resident_of_set_False[OF len2 dist, of ir] irl len2 set2
      by (simp add: evict_def set_dict_del)
    have c4: "ls_loaded_count ?s4 = int (count_true (ls_loaded ?s4))"
      using count_true_set_False[of ir "ls_loaded ?s2"] ldir irl len2 cnt2(1)
      by (simp add: evict_def)
    have c4k: "ls_loaded_count ?s4 \<le> k" using eq by (simp add: evict_def)
    have "loop_inv b ?s4"
      using a4 l4 sl4 d4 set4 c4 c4k mp unfolding loop_inv_def lru_inv_def by auto
    with step show ?thesis by blast
  qed
qed

lemma cache_step_fetch_error:
  assumes "label_position (index (series b)) l = Some i" "fetch b st l v = Inl e"
  shows "cache_step b st (l, v) s = (Some e, if max_persist b \<noteq> None then touched l s else s)"
  using assms by (simp add: cache_step_def fetch_def touched_def Let_def split: pyval.splits option.splits)

lemma cache_step_inv:
  assumes dist: "distinct (index (series b))"
    and mem: "l \<in> set (index (series b))"
    and ok: "slot_ok v"
    and inv: "loop_inv b s"
    and step: "cache_step b st (l, v) s = (None, s')"
  shows "loop_inv b s'"
proof -
  obtain i where pos: "label_position (index (series b)) l = Some i"
    using mem label_position_None[of "index (series b)" l]
    by (cases "label_position (index (series b)) l") auto
  show ?thesis
  proof (cases "fetch b st l v")
    case (Inl e)
    then show ?thesis using cache_step_fetch_error[OF pos Inl, of s] step by simp
  next
    case (Inr fr)
    show ?thesis
    proof (cases "max_persist b")
      case None
      then show ?thesis using cache_step_None[OF None pos inv ok Inr] step by simp
    next
      case (Some k)
      then show ?thesis using cache_step_Some[OF Some dist pos inv ok Inr] step by auto
    qed
  qed
qed

lemma cache_loop_inv:
  assumes dist: "distinct (index (series b))"
    and ts: "\<forall>t\<in>set ts. fst t \<in> set (index (series b)) \<and> slot_ok (snd t)"
    and inv: "loop_inv b s"
    and loop: "cache_loop b st ts s = (None, s')"
  shows "loop_inv b s'"
  using ts inv loop
proof (induction ts arbitrary: s)
  case Nil
  then show ?case by simp
next
  case (Cons t ts)
  obtain r s1 where st: "cache_step b st t s = (r, s1)" by (cases "cache_step b st t s")
  with Cons.prems(3) have r: "r = None" and rest: "cache_loop b st ts s1 = (None, s')"
    by (auto split: option.splits)
  obtain l v where t: "t = (l, v)" by (cases t)
  have "loop_inv b s1"
    using cache_step_inv[OF dist _ _ Cons.prems(2), of l v st s1] st r t Cons.prems(1) by simp
  then show ?case using Cons.IH[OF _ _ rest] Cons.prems(1) by simp
qed

lemma norm_pos_less: "norm_pos n i = Some p \<Longrightarrow> p < n"
  by (auto simp: norm_pos_def split: if_splits)

lemma those_all:
  "those xs = Some ys \<Longrightarrow> length ys = length xs \<and> (\<forall>k<length xs. xs ! k = Some (ys ! k))"
proof (induction xs arbitrary: ys)
  case Nil
  then show ?case by simp
next
  case (Cons x xs)
  then show ?case by (auto split: option.splits simp: nth_Cons split: nat.splits)
qed

lemma slice_bound_le: "slice_bound n i \<le> n"
  by (auto simp: slice_bound_def max_def)

lemma key_positions_less:
  assumes "key_positions n key = Inr sel"
  shows "\<forall>p\<in>set (sel_list sel). p < n"
proof (cases key)
  case (KInt i)
  then show ?thesis using assms by (auto split: option.splits dest: norm_pos_less)
next
  case (KSlice a b)
  then show ?thesis using assms
    by (auto simp: slice_positions_def split: option.splits intro: less_le_trans[OF _ slice_bound_le])
next
  case (KList js)
  then obtain ps where ps: "those (map (norm_pos n) js) = Some ps" "sel = Multiple ps"
    using assms by (auto split: option.splits)
  have "\<forall>k<length js. norm_pos n (js ! k) = Some (ps ! k)" "length ps = length js"
    using those_all[OF ps(1)] by auto
  then show ?thesis using ps(2) norm_pos_less by (fastforce simp: in_set_conv_nth)
qed

lemma update_unfold:
  "update_series_cache_iloc key b =
     (case load_needed key b of
        Inl e \<Rightarrow> (Some e, b)
      | Inr load \<Rightarrow>
          if \<not> load \<and> max_persist b = None then (None, b)
          else if \<not> load then
            (case index_iloc (index (series b)) key of
               Inl e \<Rightarrow> (Some e, b)
             | Inr ls \<Rightarrow>
                 (None, b\<lparr>last_accessed := fold lru_touch (sel_list ls) (last_accessed b)\<rparr>))
          else
            (case store b of
               None \<Rightarrow> (Some (RuntimeError ''no store defined''), b)
             | Some st \<Rightarrow>
                 (case series_iloc_items (series b) key of
                    Inl e \<Rightarrow> (Some e, b)
                  | Inr targets \<Rightarrow>
                      (case cache_loop b st targets (loop_start b) of
                         (Some e, s) \<Rightarrow> (Some e, interrupted b s)
                       | (None, s) \<Rightarrow> (None, publish b s)))))"
  unfolding update_series_cache_iloc_def load_needed_def loop_start_def publish_def
    interrupted_def Let_def
  by (simp cong: sum.case_cong option.case_cong if_cong)

lemma update_None_cases:
  assumes "update_series_cache_iloc key b = (None, b')"
  obtains (noop) "b' = b"
  | (touch) ls where "max_persist b \<noteq> None" "index_iloc (index (series b)) key = Inr ls"
      "b' = b\<lparr>last_accessed := fold lru_touch (sel_list ls) (last_accessed b)\<rparr>"
      "load_needed key b = Inr False"
  | (load) st ts s where "store b = Some st" "series_iloc_items (series b) key = Inr ts"
      "cache_loop b st ts (loop_start b) = (None, s)" "b' = publish b s"
proof (cases "load_needed key b")
  case (Inl e)
  then show ?thesis using assms by (simp add: update_unfold)
next
  case (Inr ld)
  show ?thesis
  proof (cases ld)
    case False
    show ?thesis
    proof (cases "max_persist b = None")
      case True
      then have "b' = b" using assms Inr False by (simp add: update_unfold)
      then show ?thesis by (rule noop)
    next
      case mp: False
      show ?thesis
      proof (cases "index_iloc (index (series b)) key")
        case (Inl e)
        then show ?thesis using assms Inr False mp by (simp add: update_unfold)
      next
        case ls: (Inr ls)
        have "b' = b\<lparr>last_accessed := fold lru_touch (sel_list ls) (last_accessed b)\<rparr>"
          using assms Inr False mp ls by (simp add: update_unfold)
        then show ?thesis using touch[OF mp ls] Inr False by simp
      qed
    qed
  next
    case True
    show ?thesis
    proof (cases "store b")
      case None
      then show ?thesis using assms Inr True by (simp add: update_unfold)
    next
      case (Some st)
      show ?thesis
      proof (cases "series_iloc_items (series b) key")
        case (Inl e)
        then show ?thesis using assms Inr True Some by (simp add: update_unfold)
      next
        case ts: (Inr ts)
        obtain r s where lp: "cache_loop b st ts (loop_start b) = (r, s)"
          by (cases "cache_loop b st ts (loop_start b)")
        have "r = None \<and> b' = publish b s"
          using assms Inr True Some ts lp by (cases r) (simp_all add: update_unfold)
        then show ?thesis using load[OF Some ts, of s] lp by simp
      qed
    qed
  qed
qed

lemma sel_list_sel_map: "sel_list (sel_map f sel) = map f (sel_list sel)"
  by (cases sel) simp_all

lemma np_getitem_Inr:
  assumes "np_getitem xs key = Inr sel"
  obtains ps where "key_positions (length xs) key = Inr ps" "sel = sel_map (\<lambda>p. xs ! p) ps"
  using assms by (auto simp: np_getitem_def split: sum.splits)

lemma index_iloc_Inr:
  assumes "index_iloc ix key = Inr ls"
  obtains ps where "key_positions (length ix) key = Inr ps"
    "sel_list ls = map (\<lambda>p. ix ! p) (sel_list ps)" "distinct (sel_list ls)"
proof -
  obtain sel where g: "np_getitem ix key = Inr sel"
    using assms by (cases "np_getitem ix key") (auto simp: index_iloc_def)
  then obtain ps where ps: "key_positions (length ix) key = Inr ps" "sel = sel_map (\<lambda>p. ix ! p) ps"
    by (rule np_getitem_Inr)
  have "ls = sel \<and> distinct (sel_list ls)"
    using assms g by (cases sel) (auto simp: index_iloc_def split: if_splits)
  then show ?thesis using that[OF ps(1)] ps(2) by (auto simp: sel_list_sel_map)
qed

lemma series_iloc_items_Inr:
  assumes "series_iloc_items s key = Inr ts" "length (svalues s) = length (index s)"
  obtains ps where "key_positions (length (index s)) key = Inr ps"
    "ts = map (\<lambda>p. (index s ! p, svalues s ! p)) (sel_list ps)"
    "distinct (map fst ts)"
proof -
  obtain ls where ls: "index_iloc (index s) key = Inr ls"
    using assms(1) by (cases "index_iloc (index s) key") (auto simp: series_iloc_items_def)
  obtain vs where vs: "np_getitem (svalues s) key = Inr vs"
    using assms(1) ls by (cases "np_getitem (svalues s) key") (auto simp: series_iloc_items_def)
  have ts: "ts = zip (sel_list ls) (sel_list vs)"
    using assms(1) ls vs by (simp add: series_iloc_items_def)
  obtain ps where ps: "key_positions (length (index s)) key = Inr ps"
    "sel_list ls = map (\<lambda>p. index s ! p) (sel_list ps)" "distinct (sel_list ls)"
    using ls by (rule index_iloc_Inr)
  obtain qs where qs: "key_positions (length (svalues s)) key = Inr qs"
    "vs = sel_map (\<lambda>p. svalues s ! p) qs"
    using vs by (rule np_getitem_Inr)
  have "qs = ps" using ps(1) qs(1) assms(2) by simp
  then have "ts = map (\<lambda>p. (index s ! p, svalues s ! p)) (sel_list ps)"
    using ts ps(2) qs(2) by (simp add: sel_list_sel_map zip_map_map zip_same_conv_map)
  moreover have "map fst ts = sel_list ls"
    using calculation ps(2) by (simp add: comp_def)
  ultimately show ?thesis using that[OF ps(1)] ps(3) by simp
qed

lemma fold_lru_touch:
  "set ls \<subseteq> set la \<Longrightarrow> distinct la \<Longrightarrow>
   set (fold lru_touch ls la) = set la \<and> distinct (fold lru_touch ls la)"
proof (induction ls arbitrary: la)
  case Nil
  then show ?case by simp
next
  case (Cons l ls)
  have "set (lru_touch l la) = set la" using Cons.prems(1) by (auto simp: set_lru_touch)
  moreover have "distinct (lru_touch l la)" using Cons.prems(2) by (rule distinct_lru_touch)
  ultimately show ?case using Cons.IH[of "lru_touch l la"] Cons.prems(1) by simp
qed

lemma bus_invD:
  assumes "bus_inv b"
  shows "distinct (index (series b))"
    and "list_all is_str (index (series b))"
    and "length (svalues (series b)) = length (index (series b))"
    and "loaded b = map is_Frame (svalues (series b))"
    and "list_all slot_ok (svalues (series b))"
    and "loaded_all b = list_all (\<lambda>x. x) (loaded b)"
    and "lru_inv (max_persist b) (index (series b)) (loaded b) (last_accessed b)"
    and "length (loaded b) = length (index (series b))"
  using assms unfolding bus_inv_def by auto

lemma loop_start_inv: "bus_inv b \<Longrightarrow> loop_inv b (loop_start b)"
  unfolding bus_inv_def loop_inv_def loop_start_def
  by (auto split: option.splits)

lemma publish_inv:
  assumes "bus_inv b" "loop_inv b s"
  shows "bus_inv (publish b s)"
  using assms unfolding bus_inv_def loop_inv_def publish_def
  by (auto split: option.splits)

lemma load_needed_False_resident:
  assumes inv: "bus_inv b" and nl: "load_needed key b = Inr False"
    and ps: "key_positions (length (index (series b))) key = Inr ps"
  shows "\<forall>p\<in>set (sel_list ps). loaded b ! p"
proof (cases "loaded_all b")
  case True
  then have "\<forall>p<length (loaded b). loaded b ! p"
    using bus_invD(6)[OF inv] by (simp add: list_all_length)
  then show ?thesis using key_positions_less[OF ps] bus_invD(8)[OF inv] by auto
next
  case False
  then obtain sel where sel: "np_getitem (loaded b) key = Inr sel" "sel_all sel"
    using nl by (auto simp: load_needed_def split: sum.splits)
  obtain qs where qs: "key_positions (length (loaded b)) key = Inr qs"
    "sel = sel_map (\<lambda>p. loaded b ! p) qs"
    using sel(1) by (rule np_getitem_Inr)
  have "qs = ps" using qs(1) ps bus_invD(8)[OF inv] by simp
  then show ?thesis using sel(2) qs(2) by (cases ps) (auto simp: list_all_iff)
qed

lemma update_inv:
  assumes inv: "bus_inv b" and up: "update_series_cache_iloc key b = (None, b')"
  shows "bus_inv b' \<and> max_persist b' = max_persist b \<and> store b' = store b
    \<and> config b' = config b \<and> index (series b') = index (series b)"
  using up
proof (cases rule: update_None_cases)
  case noop
  then show ?thesis using inv by simp
next
  case (touch ls)
  obtain k where k: "max_persist b = Some k" using touch(1) by auto
  obtain ps where ps: "key_positions (length (index (series b))) key = Inr ps"
    "sel_list ls = map (\<lambda>p. index (series b) ! p) (sel_list ps)"
    using touch(2) by (rule index_iloc_Inr)
  have ld: "\<forall>p\<in>set (sel_list ps). loaded b ! p"
    using load_needed_False_resident[OF inv touch(4) ps(1)] .
  have lt: "\<forall>p\<in>set (sel_list ps). p < length (loaded b)"
    using key_positions_less[OF ps(1)] bus_invD(8)[OF inv] by simp
  have lru: "distinct (last_accessed b)"
    "set (last_accessed b) = set (resident_of (index (series b)) (loaded b))"
    using bus_invD(7)[OF inv] k by (simp_all add: lru_inv_def)
  have "set (sel_list ls) \<subseteq> set (last_accessed b)"
    using ld lt ps(2) lru(2) set_resident_of[of "index (series b)" "loaded b"]
      bus_invD(8)[OF inv] by auto
  then have f: "set (fold lru_touch (sel_list ls) (last_accessed b)) = set (last_accessed b)"
    "distinct (fold lru_touch (sel_list ls) (last_accessed b))"
    using fold_lru_touch[OF _ lru(1)] by auto
  show ?thesis using inv f k lru unfolding touch(3) bus_inv_def lru_inv_def by auto
next
  case (load st ts s)
  obtain ps where ps: "key_positions (length (index (series b))) key = Inr ps"
    "ts = map (\<lambda>p. (index (series b) ! p, svalues (series b) ! p)) (sel_list ps)"
    using load(2) bus_invD(3)[OF inv] by (rule series_iloc_items_Inr)
  have lt: "\<forall>p\<in>set (sel_list ps). p < length (index (series b))"
    using key_positions_less[OF ps(1)] .
  have tgt: "\<forall>t\<in>set ts. fst t \<in> set (index (series b)) \<and> slot_ok (snd t)"
    using lt ps(2) bus_invD(3,5)[OF inv] by (auto simp: list_all_length)
  have "loop_inv b s"
    using cache_loop_inv[OF bus_invD(1)[OF inv] tgt loop_start_inv[OF inv] load(3)] .
  then have "bus_inv (publish b s)" using publish_inv[OF inv] by simp
  then show ?thesis unfolding load(4) by (simp add: publish_def)
qed

lemma update_keeps:
  "bus_inv b \<Longrightarrow> update_series_cache_iloc key b = (None, b') \<Longrightarrow> bus_inv b' \<and> same_setup b b'"
  using update_inv[of b key b'] by (simp add: same_setup_def)

lemma update_all_keeps:
  "bus_inv b \<Longrightarrow> update_series_cache_all b = (None, b') \<Longrightarrow> bus_inv b' \<and> same_setup b b'"
  using update_keeps[of b NULL_SLICE b']
  by (auto simp: update_series_cache_all_def same_setup_def split: if_splits)

lemma extract_iloc_keeps:
  assumes "bus_inv b" "extract_iloc key b = (Inr r, b')"
  shows "bus_inv b' \<and> same_setup b b'"
proof -
  obtain e b1 where u: "update_series_cache_iloc key b = (e, b1)"
    by (cases "update_series_cache_iloc key b")
  have "e = None \<and> b' = b1"
    using assms(2) u
    by (cases e) (auto simp: extract_iloc_def split: sum.splits selection.splits)
  then show ?thesis using update_keeps[OF assms(1)] u by simp
qed

lemma extract_loc_keeps:
  assumes "bus_inv b" "extract_loc key b = (Inr r, b')"
  shows "bus_inv b' \<and> same_setup b b'"
  using assms extract_iloc_keeps[OF assms(1)]
  by (auto simp: extract_loc_def split: sum.splits)

lemma items_keeps:
  assumes "bus_inv b" "items b = (Inr r, b')"
  shows "bus_inv b' \<and> same_setup b b'"
proof -
  obtain e b1 where u: "update_series_cache_all b = (e, b1)"
    by (cases "update_series_cache_all b")
  have "e = None \<and> b' = b1" using assms(2) u by (cases e) (auto simp: items_def)
  then show ?thesis using update_all_keeps[OF assms(1)] u by simp
qed

lemma values_all_keeps:
  assumes "bus_inv b" "values_all b = (Inr r, b')"
  shows "bus_inv b' \<and> same_setup b b'"
proof -
  obtain e b1 where u: "update_series_cache_all b = (e, b1)"
    by (cases "update_series_cache_all b")
  have "e = None \<and> b' = b1" using assms(2) u by (cases e) (auto simp: values_all_def)
  then show ?thesis using update_all_keeps[OF assms(1)] u by simp
qed

lemma equals_keeps:
  assumes "bus_inv b" "equals other fl b = (Inr r, b')"
  shows "bus_inv b' \<and> same_setup b b'"
proof (cases other)
  case OSelf
  then show ?thesis using assms by (simp add: equals_def same_setup_def)
next
  case (ONotBus c)
  then show ?thesis using assms by (simp add: equals_def same_setup_def)
next
  case (OBus ob)
  obtain e b1 where u: "update_series_cache_all b = (e, b1)"
    by (cases "update_series_cache_all b")
  have "e = None \<and> b' = b1"
    using assms(2) u OBus by (cases e) (auto simp: equals_def split: if_splits)
  then show ?thesis using update_all_keeps[OF assms(1)] u by simp
qed

lemma apply_access_keeps:
  assumes "bus_inv b" "apply_access a b = (Inr r, b')"
  shows "bus_inv b' \<and> same_setup b b'"
proof (cases a)
  case (GetItem key)
  obtain x b1 where e: "extract_loc key b = (x, b1)" by (cases "extract_loc key b")
  then obtain y where "x = Inr y" "b1 = b'" using assms(2) GetItem by (cases x) auto
  then show ?thesis using extract_loc_keeps[OF assms(1)] e by simp
next
  case (ILoc key)
  obtain x b1 where e: "extract_iloc key b = (x, b1)" by (cases "extract_iloc key b")
  then obtain y where "x = Inr y" "b1 = b'" using assms(2) ILoc by (cases x) auto
  then show ?thesis using extract_iloc_keeps[OF assms(1)] e by simp
next
  case Items
  obtain x b1 where e: "items b = (x, b1)" by (cases "items b")
  then obtain y where "x = Inr y" "b1 = b'" using assms(2) Items by (cases x) auto
  then show ?thesis using items_keeps[OF assms(1)] e by simp
next
  case Values
  obtain x b1 where e: "values_all b = (x, b1)" by (cases "values_all b")
  then obtain y where "x = Inr y" "b1 = b'" using assms(2) Values by (cases x) auto
  then show ?thesis using values_all_keeps[OF assms(1)] e by simp
next
  case (Equals other fl)
  obtain x b1 where e: "equals other fl b = (x, b1)" by (cases "equals other fl b")
  then obtain y where "x = Inr y" "b1 = b'" using assms(2) Equals by (cases x) auto
  then show ?thesis using equals_keeps[OF assms(1)] e by simp
qed

lemma run_keeps:
  "bus_inv b \<Longrightarrow> run accs b = (None, b') \<Longrightarrow> bus_inv b' \<and> same_setup b b'"
proof (induction accs arbitrary: b)
  case Nil
  then show ?case by (simp add: same_setup_def)
next
  case (Cons a accs)
  obtain x b1 where e: "apply_access a b = (x, b1)" by (cases "apply_access a b")
  then obtain r where x: "x = Inr r" and rest: "run accs b1 = (None, b')"
    using Cons.prems(2) by (cases x) auto
  have k: "bus_inv b1 \<and> same_setup b b1"
    using apply_access_keeps[OF Cons.prems(1)] e x by simp
  then show ?case using Cons.IH[OF _ rest] by (auto simp: same_setup_def)
qed

lemma set_dict_set: "set (dict_set l d) = insert l (set d)"
  by (auto simp: dict_set_def)

lemma distinct_dict_set: "distinct d \<Longrightarrow> distinct (dict_set l d)"
  by (auto simp: dict_set_def)

lemma resident_of_Cons:
  "resident_of (x # ix) (c # ld) = (if c then x # resident_of ix ld else resident_of ix ld)"
  by (simp add: resident_of_def)

lemma gen_result:
  assumes "length ix = length vs" "gen mpa (zip ix vs) la0 = Inr (ld, la)"
  shows "ld = map is_Frame vs \<and> list_all slot_ok vs \<and> list_all is_str ix
    \<and> (if mpa then set la = set la0 \<union> set (resident_of ix ld) \<and> (distinct la0 \<longrightarrow> distinct la)
        else la = la0)"
  using assms
proof (induction ix vs arbitrary: la0 ld la rule: list_induct2)
  case Nil
  then show ?case by (simp add: resident_of_def)
next
  case (Cons x ix v vs)
  show ?case
  proof (cases v)
    case FrameDeferred
    then obtain bs where g: "gen mpa (zip ix vs) la0 = Inr (bs, la)" and ld: "ld = False # bs"
      and sx: "is_str x"
      using Cons.prems by (auto split: if_splits sum.splits)
    show ?thesis using Cons.IH[OF g] ld sx FrameDeferred by (simp add: resident_of_Cons)
  next
    case (Frame f)
    then obtain bs where g: "gen mpa (zip ix vs) (if mpa then dict_set x la0 else la0) = Inr (bs, la)"
      and ld: "ld = True # bs" and sx: "is_str x"
      using Cons.prems by (auto split: if_splits sum.splits)
    show ?thesis using Cons.IH[OF g] ld sx Frame
      by (auto simp: resident_of_Cons set_dict_set distinct_dict_set)
  next
    case (OtherValue c)
    then show ?thesis using Cons.prems by (auto split: if_splits)
  qed
qed

lemma init_inv:
  assumes "init s st cfg mp = Inr b" "distinct (index s)" "length (index s) = length (svalues s)"
  shows "bus_inv b \<and> max_persist b = mp \<and> store b = st \<and> config b = cfg \<and> series b = s"
proof -
  obtain ld la where g: "gen (mp \<noteq> None) (zip (index s) (svalues s)) [] = Inr (ld, la)"
    and ok: "\<not> (case mp of None \<Rightarrow> False | Some k \<Rightarrow> k < int (count_true ld))"
    and b: "b = \<lparr>loaded = ld, loaded_all = list_all (\<lambda>x. x) ld, series = s, store = st,
                  config = cfg, last_accessed = la, max_persist = mp\<rparr>"
    using assms(1) by (auto simp: init_def split: if_splits sum.splits)
  have r: "ld = map is_Frame (svalues s)" "list_all slot_ok (svalues s)" "list_all is_str (index s)"
    "mp \<noteq> None \<Longrightarrow> set la = set (resident_of (index s) ld) \<and> distinct la"
    using gen_result[OF assms(3) g] by (auto split: if_splits)
  show ?thesis
    using r ok assms(2,3) unfolding b bus_inv_def lru_inv_def by (auto split: option.splits)
qed

lemma from_store_inv:
  assumes "from_store st cfg mp = Inr b"
  shows "bus_inv b \<and> max_persist b = mp \<and> store b = Some st \<and> config b = cfg
    \<and> index (series b) = labels st \<and> svalues (series b) = map (\<lambda>l. FrameDeferred) (labels st)"
proof -
  obtain s where s: "deferred_series (labels st) = Inr s" and i: "init s (Some st) cfg mp = Inr b"
    using assms by (auto simp: from_store_def split: sum.splits)
  have d: "distinct (labels st)" and sv: "s = \<lparr>index = labels st, svalues = map (\<lambda>l. FrameDeferred) (labels st), sname = None, dtype = DTYPE_OBJECT\<rparr>"
    using s by (auto simp: deferred_series_def split: if_splits)
  show ?thesis using init_inv[OF i] d sv by simp
qed

section \<open>The loop runs to its end or to the first failing read\<close>

lemma cache_step_total:
  assumes "distinct (index (series b))" "label_position (index (series b)) l = Some i"
    "loop_inv b s" "slot_ok v" "fetch b st l v = Inr fr"
  shows "\<exists>s'. cache_step b st (l, v) s = (None, s') \<and> loop_inv b s'"
proof (cases "max_persist b")
  case None
  then show ?thesis using cache_step_None[OF None assms(2,3,4,5)] by blast
next
  case (Some k)
  then show ?thesis using cache_step_Some[OF Some assms] by blast
qed

lemma cache_loop_total:
  assumes dist: "distinct (index (series b))"
    and ts: "\<forall>t\<in>set ts. fst t \<in> set (index (series b)) \<and> slot_ok (snd t)
               \<and> (\<exists>fr. fetch b st (fst t) (snd t) = Inr fr)"
    and inv: "loop_inv b s"
  shows "\<exists>s'. cache_loop b st ts s = (None, s') \<and> loop_inv b s'"
  using ts inv
proof (induction ts arbitrary: s)
  case Nil
  then show ?case by simp
next
  case (Cons t ts)
  obtain l v where t: "t = (l, v)" by (cases t)
  from Cons.prems(1) t have mem: "l \<in> set (index (series b))" and ok: "slot_ok v"
    and ex: "\<exists>fr. fetch b st l v = Inr fr" by auto
  from mem obtain i where pos: "label_position (index (series b)) l = Some i"
    using label_position_None[of "index (series b)" l] by (cases "label_position (index (series b)) l") auto
  from ex obtain fr where rd: "fetch b st l v = Inr fr" by blast
  obtain s1 where s1: "cache_step b st (l, v) s = (None, s1)" "loop_inv b s1"
    using cache_step_total[OF dist pos Cons.prems(2) ok rd] by blast
  from Cons.prems(1) have "\<forall>t\<in>set ts. fst t \<in> set (index (series b)) \<and> slot_ok (snd t)
               \<and> (\<exists>fr. fetch b st (fst t) (snd t) = Inr fr)" by simp
  from Cons.IH[OF this s1(2)] obtain s' where "cache_loop b st ts s1 = (None, s')" "loop_inv b s'"
    by blast
  then show ?case using s1(1) t by simp
qed












section \<open>A ceiling of zero, and the checks of the constructor\<close>



lemma key_positions_KInt: "i < n \<Longrightarrow> key_positions n (KInt (int i)) = Inr (Single i)"
  by (simp add: norm_pos_def)












section \<open>The scenario of three labels under a ceiling of one\<close>

text \<open>
  Claim C2. A Bus built from a backend that enumerates \<^verbatim>\<open>a, b, c\<close> with
  \<^verbatim>\<open>max_persist = 1\<close> starts with nothing resident. \<^verbatim>\<open>bus["a"]\<close> returns the frame
  of \<^verbatim>\<open>a\<close> and leaves exactly \<^verbatim>\<open>a\<close> resident; \<^verbatim>\<open>bus["b"]\<close> then leaves exactly
  \<^verbatim>\<open>b\<close> resident, the slot of \<^verbatim>\<open>a\<close> holding the token again; \<^verbatim>\<open>bus["a"]\<close> then
  leaves exactly \<^verbatim>\<open>a\<close>; and loading everything (\<^verbatim>\<open>bus.values\<close>) then ends with
  exactly \<^verbatim>\<open>c\<close> resident.
\<close>

theorem scenario_abc_ceiling_one:
  "(case from_store abc_store default_config (Some 1) of
      Inl e \<Rightarrow> False
    | Inr b0 \<Rightarrow>
        resident b0 = [] \<and>
        (case extract_loc (LLabel (LStr ''a'')) b0 of (r1, b1) \<Rightarrow>
           element_of r1 = Some (Frame (frame_of ''a'')) \<and>
           resident b1 = [LStr ''a''] \<and>
           svalues (series b1) = [Frame (frame_of ''a''), FrameDeferred, FrameDeferred] \<and>
           (case extract_loc (LLabel (LStr ''b'')) b1 of (r2, b2) \<Rightarrow>
              element_of r2 = Some (Frame (frame_of ''b'')) \<and>
              resident b2 = [LStr ''b''] \<and>
              svalues (series b2) = [FrameDeferred, Frame (frame_of ''b''), FrameDeferred] \<and>
              (case extract_loc (LLabel (LStr ''a'')) b2 of (r3, b3) \<Rightarrow>
                 element_of r3 = Some (Frame (frame_of ''a'')) \<and>
                 resident b3 = [LStr ''a''] \<and>
                 svalues (series b3) = [Frame (frame_of ''a''), FrameDeferred, FrameDeferred] \<and>
                 (case values_all b3 of (r4, b4) \<Rightarrow>
                    r4 = Inr [FrameDeferred, FrameDeferred, Frame (frame_of ''c'')] \<and>
                    resident b4 = [LStr ''c''] \<and>
                    svalues (series b4) = [FrameDeferred, FrameDeferred, Frame (frame_of ''c'')])))))"
  by code_simp

section \<open>The ceiling on resident frames\<close>

text \<open>
  Claim C1. For a Bus built from a backend with \<^verbatim>\<open>max_persist = k\<close>, after any finite
  sequence of accesses (by label, by position, fancy, \<^verbatim>\<open>items\<close>, \<^verbatim>\<open>values\<close>,
  \<^verbatim>\<open>equals\<close>) none of which raises, the number of set flags in \<^verbatim>\<open>_loaded\<close> is at
  most \<open>k\<close>.
\<close>

theorem resident_within_ceiling:
  assumes "from_store st cfg (Some k) = Inr b0" "run accs b0 = (None, b)"
  shows "int (count_true (loaded b)) \<le> k"
proof -
  have "bus_inv b0" "max_persist b0 = Some k" using from_store_inv[OF assms(1)] by simp_all
  then have "bus_inv b" "max_persist b = Some k"
    using run_keeps[OF _ assms(2)] by (simp_all add: same_setup_def)
  then show ?thesis unfolding bus_inv_def lru_inv_def by auto
qed

theorem resident_within_ceiling_witness:
  "\<exists>b0 b. from_store abc_store default_config (Some 1) = Inr b0
     \<and> run [GetItem (LLabel (LStr ''a'')), ILoc (KList [2, 0]), Values] b0 = (None, b)
     \<and> int (count_true (loaded b)) \<le> 1"
proof -
  have ev: "(case from_store abc_store default_config (Some 1) of
               Inl e \<Rightarrow> False
             | Inr b0 \<Rightarrow>
                 fst (run [GetItem (LLabel (LStr ''a'')), ILoc (KList [2, 0]), Values] b0) = None)"
    by code_simp
  then obtain b0 where b0: "from_store abc_store default_config (Some 1) = Inr b0"
    by (cases "from_store abc_store default_config (Some 1)") auto
  with ev have "fst (run [GetItem (LLabel (LStr ''a'')), ILoc (KList [2, 0]), Values] b0) = None"
    by simp
  then obtain b where b: "run [GetItem (LLabel (LStr ''a'')), ILoc (KList [2, 0]), Values] b0 = (None, b)"
    by (cases "run [GetItem (LLabel (LStr ''a'')), ILoc (KList [2, 0]), Values] b0") auto
  show ?thesis using b0 b resident_within_ceiling[OF b0 b] by blast
qed

section \<open>A read that raises\<close>



section \<open>Flags and slots after a failed batch\<close>

text \<open>
  Claim C3 states that after every public operation, one that raises included, the flag
  at a position of \<^verbatim>\<open>_loaded\<close> is set exactly when the slot holds a \<^verbatim>\<open>Frame\<close>.
  After an operation that returns normally this is part of \<open>bus_inv\<close> (lemma
  \<open>apply_access_keeps\<close>). The code does not keep it when a read raises in the middle of
  a batch: on a Bus of the tokens \<^verbatim>\<open>a\<close>, \<^verbatim>\<open>zz\<close> over the backend above,
  \<^verbatim>\<open>bus.values\<close> raises for \<^verbatim>\<open>zz\<close> after \<^verbatim>\<open>a\<close> was read; the flag of
  \<^verbatim>\<open>a\<close> is set, both slots still hold the token, and \<^verbatim>\<open>bus["a"]\<close> then returns the
  token.
\<close>

theorem failed_batch_leaves_flag_without_frame:
  "(case init a_zz_series (Some abc_store) default_config None of
      Inl e \<Rightarrow> False
    | Inr b0 \<Rightarrow>
        loaded b0 = [False, False] \<and>
        (case values_all b0 of (r1, b1) \<Rightarrow>
           r1 = Inl (StoreReadError (LStr ''zz'')) \<and>
           index (series b1) = [LStr ''a'', LStr ''zz''] \<and>
           svalues (series b1) = [FrameDeferred, FrameDeferred] \<and>
           loaded b1 = [True, False] \<and>
           (case extract_loc (LLabel (LStr ''a'')) b1 of (r2, b2) \<Rightarrow>
              element_of r2 = Some FrameDeferred)))"
  by code_simp

section \<open>The labels the constructor accepts\<close>




section \<open>A ceiling of zero\<close>



end
